theory Spec2Isabelle
  imports Main "HOL-Library.Sublist"
begin

section \<open>Data model of \<open>src/App.tsx\<close>\<close>

text \<open>
  The three interfaces of the component. A JavaScript string is modelled as a
  \<^typ>\<open>string\<close>: a list of code units below 256 (the Latin-1 range), which covers every
  character the two regular expressions and the templates of the source mention. A
  numeric field holds an integer-valued double, written as the \<^typ>\<open>int\<close> that it is (an
  \<^typ>\<open>int\<close> that is no double is not a value the source can hold). The parser only
  multiplies a length by 4, which is exact; the generator adds such numbers and prints
  them, and there the rounding of the doubles and the form of the printed number are
  written out below.
\<close>

record Character =
  name :: string
  scriptPrefix :: string
  contentPrefix :: string

record Dialog =
  user :: Character
  span :: int
  content :: string

record ScriptData =
  name :: string
  initialCounter :: int
  initialSpan :: int

text \<open>
  The state that the closures of the component read and write: the roster
  (\<open>usersFields\<close>; the second copy of the file calls it \<open>users\<close>), and the four
  \<open>useState\<close> cells.
\<close>

record App =
  usersFields :: "Character list"
  dialogues :: "Dialog list"
  finalScript :: string
  rawScript :: string
  scriptData :: ScriptData

section \<open>The string primitives the source calls\<close>

abbreviation LF :: char where
  "LF \<equiv> CHR 0x0A"

abbreviation CR :: char where
  "CR \<equiv> CHR 0x0D"

text \<open>The character class \<open>[A-Za-z]\<close>.\<close>

definition isAlpha :: "char \<Rightarrow> bool" where
  "isAlpha c =
     (let n = (of_char c :: nat) in (65 \<le> n \<and> n \<le> 90) \<or> (97 \<le> n \<and> n \<le> 122))"

text \<open>
  What \<open>.\<close> refuses in a regular expression without the \<open>s\<close> flag: the line
  terminators, of which LF and CR lie in the modelled range.
\<close>

definition isLineTerminator :: "char \<Rightarrow> bool" where
  "isLineTerminator c = (c = LF \<or> c = CR)"

text \<open>
  What \<open>String.prototype.trim\<close> strips: white space and line terminators, here TAB, LF,
  VT, FF, CR, SP and NBSP.
\<close>

definition isTrimmed :: "char \<Rightarrow> bool" where
  "isTrimmed c =
     (let n = (of_char c :: nat) in (9 \<le> n \<and> n \<le> 13) \<or> n = 32 \<or> n = 160)"

definition trim :: "string \<Rightarrow> string" where
  "trim s = rev (dropWhile isTrimmed (rev (dropWhile isTrimmed s)))"

text \<open>
  \<open>String.prototype.toLowerCase\<close> on the modelled range: \<open>A\<close>--\<open>Z\<close> and the Latin-1
  capitals (\<open>0xC0\<close>--\<open>0xDE\<close> without the multiplication sign \<open>0xD7\<close>) move up by 32.
\<close>

definition toLowerChar :: "char \<Rightarrow> char" where
  "toLowerChar c =
     (let n = (of_char c :: nat) in
      if (65 \<le> n \<and> n \<le> 90) \<or> (192 \<le> n \<and> n \<le> 214) \<or> (216 \<le> n \<and> n \<le> 222)
      then char_of (n + 32) else c)"

definition toLowerCase :: "string \<Rightarrow> string" where
  "toLowerCase s = map toLowerChar s"

text \<open>
  \<open>dialogueString.split('\n')\<close>: the pieces between the line feeds; a string without a
  line feed is one piece, and the empty string is one empty piece. The last case of the
  inner \<open>case\<close> is never reached, as the result is never empty.
\<close>

fun split_nl :: "string \<Rightarrow> string list" where
  "split_nl [] = [[]]"
| "split_nl (c # cs) =
     (if c = LF then [] # split_nl cs
      else (case split_nl cs of l # ls \<Rightarrow> (c # l) # ls | [] \<Rightarrow> [[c]]))"

text \<open>
  \<open>s.match(/[A-Za-z]+/g)\<close>: the global search starts at the first letter at or after the
  current position, takes letters greedily, and goes on behind the match. The result of
  the source is \<open>null\<close> when the list is empty.
\<close>

function matchAllAlpha :: "string \<Rightarrow> string list" where
  "matchAllAlpha s =
     (let s' = dropWhile (\<lambda>c. \<not> isAlpha c) s in
      if s' = [] then [] else takeWhile isAlpha s' # matchAllAlpha (dropWhile isAlpha s'))"
  by pat_completeness auto
termination
proof (relation "measure length")
  show "wf (measure length)" by simp
next
  fix s s' :: string
  assume s': "s' = dropWhile (\<lambda>c. \<not> isAlpha c) s" and ne: "s' \<noteq> []"
  from ne obtain c t where ct: "s' = c # t" by (cases s') auto
  have "isAlpha (hd s')" using hd_dropWhile [of "\<lambda>c. \<not> isAlpha c" s] ne unfolding s' by blast
  then have "isAlpha c" using ct by simp
  then have "length (dropWhile isAlpha s') \<le> length t"
    using ct length_dropWhile_le [of isAlpha t] by simp
  moreover have "length s' \<le> length s" using s' by (simp add: length_dropWhile_le)
  ultimately show "(dropWhile isAlpha s', s) \<in> measure length" using ct by simp
qed

declare matchAllAlpha.simps [simp del]

text \<open>
  \<open>line.match(/^([A-Za-z]+): (.*)$/)\<close>, as the pair of its two groups. The first group is
  greedy and is followed by a colon, which is no letter, so it is the longest prefix of
  letters; the pattern has no \<open>m\<close> flag, so \<open>$\<close> is the end of the line, and \<open>.\<close> takes
  no line terminator.
\<close>

definition matchSpeaker :: "string \<Rightarrow> (string \<times> string) option" where
  "matchSpeaker line =
     (let speaker = takeWhile isAlpha line; rest = dropWhile isAlpha line in
      if speaker \<noteq> [] \<and> take 2 rest = '': ''
         \<and> list_all (\<lambda>c. \<not> isLineTerminator c) (drop 2 rest)
      then Some (speaker, drop 2 rest) else None)"

section \<open>Numbers\<close>

text \<open>
  The decimal numeral of an integer, with a minus sign when negative.
\<close>

fun showNat :: "nat \<Rightarrow> string" where
  "showNat n =
     (if n < 10 then [''0123456789'' ! n]
      else showNat (n div 10) @ [''0123456789'' ! (n mod 10)])"

declare showNat.simps [simp del]

definition showInt :: "int \<Rightarrow> string" where
  "showInt i = (if i < 0 then CHR ''-'' # showNat (nat (- i)) else showNat (nat i))"

text \<open>
  The values that the running threshold of the generator takes: an integer-valued double,
  or an infinity once a sum has left the range of the doubles. (A sum of a number and a
  finite number is never NaN.)
\<close>

datatype number = Finite int | PosInfinity | NegInfinity

text \<open>
  The double nearest to an integer: below \<open>2^53\<close> the integer itself; from there on the
  magnitude keeps its 53 leading bits, rounded to nearest, ties to the even significand;
  a magnitude that rounds to \<open>2^1024\<close> or more becomes an infinity.
\<close>

fun bitLength :: "nat \<Rightarrow> nat" where
  "bitLength n = (if n = 0 then 0 else Suc (bitLength (n div 2)))"

declare bitLength.simps [simp del]

definition roundMagnitude :: "nat \<Rightarrow> nat" where
  "roundMagnitude a =
     (if a < 2 ^ 53 then a
      else (let shift = bitLength a - 53;
                q = a div 2 ^ shift;
                r = a mod 2 ^ shift;
                half = 2 ^ (shift - 1)
            in (if half < r \<or> (r = half \<and> odd q) then q + 1 else q) * 2 ^ shift))"

definition toDouble :: "int \<Rightarrow> number" where
  "toDouble x =
     (let y = roundMagnitude (nat \<bar>x\<bar>) in
      if 2 ^ 1024 \<le> y then (if x < 0 then NegInfinity else PosInfinity)
      else Finite (if x < 0 then - int y else int y))"

text \<open>
  \<open>conversationSpan += dialogues[i].span\<close>: the addition of doubles is the exact sum,
  rounded to the nearest double.
\<close>

fun addNumber :: "number \<Rightarrow> int \<Rightarrow> number" where
  "addNumber (Finite a) b = toDouble (a + b)"
| "addNumber PosInfinity b = PosInfinity"
| "addNumber NegInfinity b = NegInfinity"

text \<open>
  \<open>Number::toString\<close>, which a template literal applies to a number. For an integer of
  magnitude above \<open>2^53\<close> it takes the least number \<open>k\<close> of digits such that some \<open>s\<close> of
  \<open>k\<close> digits and some \<open>n\<close> give a product \<open>s * 10^(n - k)\<close> that rounds to the number, and
  among these \<open>s\<close> the one whose product is closest to the number, the even one of two
  equally close. Seventeen digits always suffice.
\<close>

definition digitCandidates :: "nat \<Rightarrow> nat \<Rightarrow> (nat \<times> nat) list" where
  "digitCandidates a k =
     (let d = length (showNat a) in
      concat (map (\<lambda>n. if n < k then []
                        else (let p = 10 ^ (n - k); s0 = a div p in
                              map (\<lambda>s. (s, n))
                                (filter (\<lambda>s. 10 ^ (k - 1) \<le> s \<and> s < 10 ^ k
                                              \<and> roundMagnitude (s * p) = a)
                                   [s0, s0 + 1])))
                  [d, d + 1]))"

definition candidateError :: "nat \<Rightarrow> nat \<Rightarrow> nat \<times> nat \<Rightarrow> nat \<times> nat" where
  "candidateError a k c =
     (case c of (s, n) \<Rightarrow>
        (nat \<bar>int (s * 10 ^ (n - k)) - int a\<bar>, if even s then 0 else 1))"

fun closestCandidate :: "nat \<Rightarrow> nat \<Rightarrow> (nat \<times> nat) list \<Rightarrow> (nat \<times> nat) option" where
  "closestCandidate a k [] = None"
| "closestCandidate a k (c # cs) =
     (case closestCandidate a k cs of
        None \<Rightarrow> Some c
      | Some c' \<Rightarrow>
          (let e = candidateError a k c; e' = candidateError a k c' in
           if fst e < fst e' \<or> (fst e = fst e' \<and> snd e \<le> snd e') then Some c else Some c'))"

text \<open>
  The digits are followed by \<open>n - k\<close> zeros when \<open>n\<close> is at most 21, and are written in
  exponent form otherwise. Up to \<open>2^53\<close> every integer is a double and is printed as its
  decimal numeral. (The empty results of the search belong to integers that are no
  doubles.)
\<close>

definition bigToString :: "nat \<Rightarrow> string" where
  "bigToString a =
     (case find (\<lambda>k. digitCandidates a k \<noteq> []) [1..<18] of
        None \<Rightarrow> []
      | Some k \<Rightarrow>
          (case closestCandidate a k (digitCandidates a k) of
             None \<Rightarrow> []
           | Some (s, n) \<Rightarrow>
               (if n \<le> 21 then showNat s @ replicate (n - k) (CHR ''0'')
                else (case showNat s of
                        [] \<Rightarrow> []
                      | c # cs \<Rightarrow>
                          (if k = 1 then [c] else c # CHR ''.'' # cs)
                            @ ''e+'' @ showNat (n - 1)))))"

fun numberToString :: "number \<Rightarrow> string" where
  "numberToString (Finite x) =
     (if \<bar>x\<bar> \<le> 2 ^ 53 then showInt x
      else (if x < 0 then ''-'' else []) @ bigToString (nat \<bar>x\<bar>))"
| "numberToString PosInfinity = ''Infinity''"
| "numberToString NegInfinity = ''-Infinity''"

section \<open>The parser\<close>

definition getSpanFromLine :: "string \<Rightarrow> int" where
  "getSpanFromLine line =
     (let trimmedLine = trim line;
          characterMultiplier = 4;
          occurences = matchAllAlpha trimmedLine
      in if occurences \<noteq> [] then int (length occurences) * characterMultiplier else 0)"

text \<open>
  The body of the \<open>for\<close> loop of \<open>parseDialogue\<close>. Its state is the array \<open>dialogues\<close>
  and what has been written with \<open>console.error\<close> so far. A local variable whose name
  is also a field of a record carries a prime.
\<close>

definition parseLine :: "App \<Rightarrow> string \<Rightarrow> Dialog list \<times> string list \<Rightarrow> Dialog list \<times> string list" where
  "parseLine st line acc =
     (case acc of (ds, console) \<Rightarrow>
       (case matchSpeaker line of
          Some (speaker, content') \<Rightarrow>
            (let span' = getSpanFromLine line;
                 caseInsensitiveSpeaker = toLowerCase speaker
             in case find (\<lambda>u. toLowerCase (scriptPrefix u) = caseInsensitiveSpeaker)
                       (usersFields st) of
                  Some user' \<Rightarrow>
                    (ds @ [\<lparr>user = user', span = span', content = content'\<rparr>], console)
                | None \<Rightarrow> (ds, console @ [''Unknown speaker: '' @ caseInsensitiveSpeaker]))
        | None \<Rightarrow>
            (if length ds > 0
             then (butlast ds @ [(last ds)\<lparr>content := content (last ds) @ [LF] @ line\<rparr>], console)
             else (ds, console @ [''Invalid dialogue line: '' @ line]))))"

fun parseLoop :: "App \<Rightarrow> string list \<Rightarrow> Dialog list \<times> string list \<Rightarrow> Dialog list \<times> string list" where
  "parseLoop st [] acc = acc"
| "parseLoop st (line # dialogueLines) acc = parseLoop st dialogueLines (parseLine st line acc)"

text \<open>\<open>parseDialogue\<close> with its console output, and the array it returns.\<close>

definition parseDialogueIO :: "App \<Rightarrow> string \<Rightarrow> Dialog list \<times> string list" where
  "parseDialogueIO st dialogueString = parseLoop st (split_nl dialogueString) ([], [])"

definition parseDialogue :: "App \<Rightarrow> string \<Rightarrow> Dialog list" where
  "parseDialogue st dialogueString = fst (parseDialogueIO st dialogueString)"

section \<open>The generator\<close>

definition getScriptIncrementer :: "App \<Rightarrow> string" where
  "getScriptIncrementer st =
     ''scoreboard players add @s '' @ ScriptData.name (scriptData st) @ '' ''
       @ numberToString (Finite (initialCounter (scriptData st))) @ [LF]"

definition getSingleDialog :: "App \<Rightarrow> number \<Rightarrow> Dialog \<Rightarrow> string" where
  \<open>getSingleDialog st incrementer dialog =
     (let contentPrefix' = contentPrefix (user dialog) in
      ''execute if score @s '' @ ScriptData.name (scriptData st) @ '' matches ''
        @ numberToString incrementer @ '' run tellraw @a ['' @ contentPrefix'
        @ '', {"text":"'' @ content dialog
        @ ''", "italic": true, "color":"gray", "bold": "false"}]'' @ [LF])\<close>

definition getScriptFinalStatement :: "App \<Rightarrow> number \<Rightarrow> string" where
  "getScriptFinalStatement st incrementer =
     ''execute if score @s '' @ ScriptData.name (scriptData st) @ '' matches ''
       @ numberToString incrementer @ ''.. run scoreboard players set @s ''
       @ ScriptData.name (scriptData st) @ '' -1'' @ [LF]"

text \<open>
  The \<open>for\<close> loop of \<open>generateDialogues\<close>, from index \<open>i\<close> on, with the two variables it
  updates: \<open>realScriptContent\<close> and \<open>conversationSpan\<close>.
\<close>

function generateLoop :: "App \<Rightarrow> nat \<Rightarrow> string \<times> number \<Rightarrow> string \<times> number" where
  "generateLoop st i (realScriptContent, conversationSpan) =
     (if i < length (dialogues st)
      then generateLoop st (i + 1)
             (realScriptContent @ getSingleDialog st conversationSpan (dialogues st ! i),
              addNumber conversationSpan (span (dialogues st ! i)))
      else (realScriptContent, conversationSpan))"
  by pat_completeness auto
termination
  by (relation "measure (\<lambda>(st, i, acc). length (dialogues st) - i)") auto

declare generateLoop.simps [simp del]

definition generateDialogues :: "App \<Rightarrow> App" where
  "generateDialogues st =
     (let initialScriptContent = getScriptIncrementer st;
          (realScriptContent, conversationSpan) =
             generateLoop st 0 ([], Finite (initialSpan (scriptData st)));
          endingScriptContent = getScriptFinalStatement st conversationSpan;
          wholeScriptContent = initialScriptContent @ realScriptContent @ endingScriptContent
      in st\<lparr>finalScript := wholeScriptContent\<rparr>)"

section \<open>Vocabulary of the statements\<close>

text \<open>
  The lookup of the roster that the loop body makes for a speaker tag, and the dialogue
  that the loop body pushes for a line: none when the line does not match the speaker
  pattern or its speaker is unknown.
\<close>

definition resolveSpeaker :: "App \<Rightarrow> string \<Rightarrow> Character option" where
  "resolveSpeaker st speaker =
     find (\<lambda>u. toLowerCase (scriptPrefix u) = toLowerCase speaker) (usersFields st)"

definition dialogOf :: "App \<Rightarrow> string \<Rightarrow> Dialog option" where
  "dialogOf st line =
     (case matchSpeaker line of
        None \<Rightarrow> None
      | Some (speaker, content') \<Rightarrow>
          (case resolveSpeaker st speaker of
             None \<Rightarrow> None
           | Some user' \<Rightarrow>
               Some \<lparr>user = user', span = getSpanFromLine line, content = content'\<rparr>))"

definition recognized :: "App \<Rightarrow> string \<Rightarrow> bool" where
  "recognized st line = (dialogOf st line \<noteq> None)"

text \<open>The dialogues that the loop of the parser builds from a list of lines.\<close>

definition parseLines :: "App \<Rightarrow> string list \<Rightarrow> Dialog list" where
  "parseLines st ls = fst (parseLoop st ls ([], []))"

text \<open>
  A dialogue \<open>d\<close> of the result stems from the line \<open>line\<close>: the line produces a
  dialogue, of the user and the span of \<open>d\<close>, and the content of \<open>d\<close> starts with the
  content matched on that line (continuation lines may follow it).
\<close>

definition producedBy :: "App \<Rightarrow> Dialog \<Rightarrow> string \<Rightarrow> bool" where
  "producedBy st d line =
     (case dialogOf st line of
        None \<Rightarrow> False
      | Some d0 \<Rightarrow> user d = user d0 \<and> span d = span d0 \<and> prefix (content d0) (content d))"

text \<open>
  The word count in the words of the specification: the number of maximal runs of
  letters. A maximal run starts at each position that holds a letter and is the first
  position or follows a position that holds no letter.
\<close>

definition alphaRunCount :: "string \<Rightarrow> nat" where
  "alphaRunCount s =
     length (filter (\<lambda>i. isAlpha (s ! i) \<and> (i = 0 \<or> \<not> isAlpha (s ! (i - 1))))
               [0..<length s])"

text \<open>
  The same count by one pass from the left, where \<open>prev\<close> tells whether the character
  before the string is a letter.
\<close>

fun countRunStarts :: "bool \<Rightarrow> string \<Rightarrow> nat" where
  "countRunStarts prev [] = 0"
| "countRunStarts prev (c # cs) =
     (if isAlpha c \<and> \<not> prev then 1 else 0) + countRunStarts (isAlpha c) cs"

text \<open>
  Two strings differ only in letter case: they have the same length, and at each position
  the characters are equal or one is the lower-case form of the other.
\<close>

definition caseVariant :: "char \<Rightarrow> char \<Rightarrow> bool" where
  "caseVariant a b = (a = b \<or> toLowerChar a = b \<or> a = toLowerChar b)"

definition differOnlyInCase :: "string \<Rightarrow> string \<Rightarrow> bool" where
  "differOnlyInCase s t = list_all2 caseVariant s t"

text \<open>
  The threshold \<open>t_i\<close> of the statements on the generator: the initial span plus the spans
  of the dialogues before index \<open>i\<close>, as integers. The running threshold is what the loop
  of the generator holds in \<open>conversationSpan\<close> when it reaches index \<open>i\<close>: the same sum,
  each addition rounded to a double.
\<close>

definition thresholdAt :: "App \<Rightarrow> nat \<Rightarrow> int" where
  "thresholdAt st i = initialSpan (scriptData st) + sum_list (map span (take i (dialogues st)))"

definition runningSpan :: "App \<Rightarrow> nat \<Rightarrow> number" where
  "runningSpan st i =
     foldl addNumber (Finite (initialSpan (scriptData st))) (map span (take i (dialogues st)))"

text \<open>
  The integer that a decimal numeral denotes: an optional minus sign and at least one
  digit, read from the left.
\<close>

definition digitValue :: "char \<Rightarrow> nat option" where
  "digitValue c =
     (let n = (of_char c :: nat) in if 48 \<le> n \<and> n \<le> 57 then Some (n - 48) else None)"

fun digitsValue :: "nat \<Rightarrow> string \<Rightarrow> nat option" where
  "digitsValue acc [] = Some acc"
| "digitsValue acc (c # cs) =
     (case digitValue c of None \<Rightarrow> None | Some d \<Rightarrow> digitsValue (10 * acc + d) cs)"

definition decimalValue :: "string \<Rightarrow> int option" where
  "decimalValue s =
     (case s of
        [] \<Rightarrow> None
      | c # cs \<Rightarrow>
          (if c = CHR ''-''
           then (if cs = [] then None else map_option (\<lambda>n. - int n) (digitsValue 0 cs))
           else map_option int (digitsValue 0 s)))"

section \<open>Example data\<close>

text \<open>
  The component as \<open>useState\<close> initialises it, over a given roster, and the character of
  the worked example.
\<close>

definition initialApp :: "Character list \<Rightarrow> App" where
  "initialApp roster =
     \<lparr>usersFields = roster, dialogues = [], finalScript = [], rawScript = [],
      scriptData = \<lparr>ScriptData.name = [], initialCounter = 1, initialSpan = 10\<rparr>\<rparr>"

definition alice :: Character where
  "alice = \<lparr>Character.name = ''Alice'', scriptPrefix = ''A'', contentPrefix = ''Alice: ''\<rparr>"

text \<open>
  The state of the worked example: its roster, its configuration, and the one dialogue
  that the parser returns for its raw text.
\<close>

definition exampleApp :: App where
  "exampleApp =
     \<lparr>usersFields = [alice],
      dialogues = [\<lparr>user = alice, span = 12, content = ''Hello there''\<rparr>],
      finalScript = [], rawScript = ''A: Hello there'',
      scriptData = \<lparr>ScriptData.name = ''S'', initialCounter = 1, initialSpan = 10\<rparr>\<rparr>"

text \<open>
  A state whose thresholds leave the range in which the doubles hold every integer: the
  initial span is \<open>2^53\<close>, and each of the two dialogues has span 1.
\<close>

definition roundingApp :: App where
  "roundingApp =
     \<lparr>usersFields = [alice],
      dialogues = [\<lparr>user = alice, span = 1, content = ''a''\<rparr>,
                   \<lparr>user = alice, span = 1, content = ''b''\<rparr>],
      finalScript = [], rawScript = [],
      scriptData = \<lparr>ScriptData.name = ''S'', initialCounter = 1,
                     initialSpan = 9007199254740992\<rparr>\<rparr>"

section \<open>Numbers: exact sums and decimal numerals\<close>

text \<open>
  Up to \<open>2^53\<close> in magnitude every integer is a double, so a sum that stays there is not
  rounded.
\<close>

lemma bitLength_2_53: "bitLength (2 ^ 53) = 54"
  by (simp add: bitLength.simps)

lemma roundMagnitude_exact: "a \<le> 2 ^ 53 \<Longrightarrow> roundMagnitude a = a"
proof (cases "a < 2 ^ 53")
  case True
  then show ?thesis by (simp add: roundMagnitude_def)
next
  case False
  assume "a \<le> 2 ^ 53"
  with False have a: "a = 2 ^ 53" by simp
  show ?thesis unfolding a roundMagnitude_def bitLength_2_53 by simp
qed

lemma toDouble_exact: "\<bar>x\<bar> \<le> 2 ^ 53 \<Longrightarrow> toDouble x = Finite x"
proof -
  assume x: "\<bar>x\<bar> \<le> 2 ^ 53"
  then have le: "nat \<bar>x\<bar> \<le> 2 ^ 53" by (simp add: nat_le_iff)
  have r: "roundMagnitude (nat \<bar>x\<bar>) = nat \<bar>x\<bar>" using le by (rule roundMagnitude_exact)
  have "(2::nat) ^ 53 < 2 ^ 1024" by (rule power_strict_increasing) simp_all
  then have "\<not> (2::nat) ^ 1024 \<le> nat \<bar>x\<bar>" using le by linarith
  then show ?thesis unfolding toDouble_def r by (simp add: Let_def)
qed

text \<open>Reading the decimal numeral of an integer gives the integer back.\<close>

lemma digitValue_digit: "n < 10 \<Longrightarrow> digitValue (''0123456789'' ! n) = Some n"
proof -
  assume "n < 10"
  then consider "n = 0" | "n = 1" | "n = 2" | "n = 3" | "n = 4" | "n = 5" | "n = 6"
    | "n = 7" | "n = 8" | "n = 9" by atomize_elim arith
  then show ?thesis by cases (simp_all add: digitValue_def)
qed

lemma digitsValue_append:
  "digitsValue acc (xs @ ys) =
     (case digitsValue acc xs of None \<Rightarrow> None | Some a \<Rightarrow> digitsValue a ys)"
  by (induction xs arbitrary: acc) (auto split: option.splits)

lemma digitsValue_showNat: "digitsValue 0 (showNat n) = Some n"
proof (induction n rule: showNat.induct)
  case (1 n)
  show ?case
  proof (cases "n < 10")
    case True
    then show ?thesis by (simp add: showNat.simps [of n] digitValue_digit)
  next
    case False
    then have "digitsValue 0 (showNat (n div 10)) = Some (n div 10)" by (rule "1.IH")
    moreover have "n mod 10 < 10" by simp
    ultimately show ?thesis
      using False by (simp add: showNat.simps [of n] digitsValue_append digitValue_digit)
  qed
qed

lemma showNat_nonempty: "showNat n \<noteq> []"
  by (simp add: showNat.simps [of n])

lemma digit_not_minus: "n < 10 \<Longrightarrow> ''0123456789'' ! n \<noteq> CHR ''-''"
proof -
  assume "n < 10"
  then consider "n = 0" | "n = 1" | "n = 2" | "n = 3" | "n = 4" | "n = 5" | "n = 6"
    | "n = 7" | "n = 8" | "n = 9" by atomize_elim arith
  then show ?thesis by cases simp_all
qed

lemma hd_showNat_not_minus: "hd (showNat n) \<noteq> CHR ''-''"
proof (induction n rule: showNat.induct)
  case (1 n)
  show ?case
  proof (cases "n < 10")
    case True
    then show ?thesis by (simp add: showNat.simps [of n] digit_not_minus)
  next
    case False
    then show ?thesis
      using "1.IH" showNat_nonempty [of "n div 10"] by (simp add: showNat.simps [of n])
  qed
qed

lemma decimalValue_showInt: "decimalValue (showInt x) = Some x"
proof (cases "x < 0")
  case True
  then show ?thesis
    by (simp add: showInt_def decimalValue_def showNat_nonempty digitsValue_showNat)
next
  case False
  obtain c cs where s: "showNat (nat x) = c # cs"
    using showNat_nonempty [of "nat x"] by (cases "showNat (nat x)") auto
  have "c \<noteq> CHR ''-''" using hd_showNat_not_minus [of "nat x"] s by simp
  then show ?thesis
    using False s digitsValue_showNat [of "nat x"] by (simp add: showInt_def decimalValue_def)
qed

section \<open>The generator: thresholds and determinism\<close>

text \<open>
  The loop from index \<open>i\<close>, entered with the running threshold of index \<open>i\<close>, appends one
  statement per remaining dialogue, each at its own running threshold, and ends at the
  running threshold of the whole list. While the thresholds stay within \<open>2^53\<close>, the
  running threshold is the threshold.
\<close>

lemma runningSpan_Suc:
  "i < length (dialogues st) \<Longrightarrow>
   runningSpan st (Suc i) = addNumber (runningSpan st i) (span (dialogues st ! i))"
  by (simp add: runningSpan_def take_Suc_conv_app_nth)

lemma thresholdAt_Suc:
  "i < length (dialogues st) \<Longrightarrow>
   thresholdAt st (Suc i) = thresholdAt st i + span (dialogues st ! i)"
  by (simp add: thresholdAt_def take_Suc_conv_app_nth)

lemma runningSpan_exact:
  "i \<le> length (dialogues st) \<Longrightarrow> \<forall>j \<le> i. \<bar>thresholdAt st j\<bar> \<le> 2 ^ 53 \<Longrightarrow>
   runningSpan st i = Finite (thresholdAt st i)"
proof (induction i)
  case 0
  show ?case by (simp add: runningSpan_def thresholdAt_def)
next
  case (Suc i)
  then have i: "i < length (dialogues st)" by simp
  have "runningSpan st i = Finite (thresholdAt st i)" using Suc by simp
  moreover have "\<bar>thresholdAt st (Suc i)\<bar> \<le> 2 ^ 53" using Suc.prems(2) by blast
  ultimately show ?case
    using i by (simp add: runningSpan_Suc thresholdAt_Suc toDouble_exact)
qed

lemma generateLoop_closed:
  "i \<le> length (dialogues st) \<Longrightarrow> conversationSpan = runningSpan st i \<Longrightarrow>
   generateLoop st i (realScriptContent, conversationSpan) =
     (realScriptContent @ concat (map (\<lambda>j. getSingleDialog st (runningSpan st j) (dialogues st ! j))
          [i..<length (dialogues st)]),
      runningSpan st (length (dialogues st)))"
proof (induction st i "(realScriptContent, conversationSpan)"
    arbitrary: realScriptContent conversationSpan rule: generateLoop.induct)
  case (1 st i rsc cs)
  show ?case
  proof (cases "i < length (dialogues st)")
    case True
    have next_span: "addNumber cs (span (dialogues st ! i)) = runningSpan st (i + 1)"
      using True "1.prems"(2) by (simp add: runningSpan_Suc)
    have "generateLoop st i (rsc, cs) =
        generateLoop st (i + 1)
          (rsc @ getSingleDialog st cs (dialogues st ! i), addNumber cs (span (dialogues st ! i)))"
      using True by (simp add: generateLoop.simps [of st i])
    also have "\<dots> = ((rsc @ getSingleDialog st cs (dialogues st ! i)) @
        concat (map (\<lambda>j. getSingleDialog st (runningSpan st j) (dialogues st ! j))
          [i + 1..<length (dialogues st)]),
        runningSpan st (length (dialogues st)))"
      using True next_span by (intro "1.hyps") auto
    finally show ?thesis
      using True "1.prems"(2) by (simp add: upt_conv_Cons)
  next
    case False
    then have i: "i = length (dialogues st)" using "1.prems"(1) by simp
    have "generateLoop st i (rsc, cs) = (rsc, cs)"
      using False by (simp add: generateLoop.simps [of st i])
    then show ?thesis
      using i "1.prems"(2) by simp
  qed
qed

lemma finalScript_generateDialogues:
  "finalScript (generateDialogues st) =
     getScriptIncrementer st
     @ concat (map (\<lambda>j. getSingleDialog st (runningSpan st j) (dialogues st ! j))
          [0..<length (dialogues st)])
     @ getScriptFinalStatement st (runningSpan st (length (dialogues st)))"
  using generateLoop_closed [of 0 st "runningSpan st 0" "[]"]
  by (simp add: generateDialogues_def runningSpan_def)

lemma generateDialogues_others:
  "generateDialogues st = st\<lparr>finalScript := finalScript (generateDialogues st)\<rparr>"
  by (simp add: generateDialogues_def Let_def split: prod.splits)

lemma toDouble_tie: "toDouble 9007199254740993 = Finite 9007199254740992"
  by (simp add: toDouble_def roundMagnitude_def bitLength.simps Let_def)

lemma runningSpan_roundingApp:
  "runningSpan roundingApp 0 = Finite 9007199254740992"
  "runningSpan roundingApp (Suc 0) = Finite 9007199254740992"
  "runningSpan roundingApp 2 = Finite 9007199254740992"
  by (simp_all add: runningSpan_def roundingApp_def toDouble_tie numeral_2_eq_2)

lemma showInt_2_53: "showInt 9007199254740992 = ''9007199254740992''"
  by (simp add: showInt_def showNat.simps)

text \<open>
  C1, as amended: when every threshold \<open>t_i\<close>, the initial span plus the spans of the
  dialogues before index \<open>i\<close>, for \<open>i\<close> from 0 to the number of dialogues, has magnitude
  at most \<open>2^53\<close>, the script that \<open>generateDialogues\<close> stores is the increment statement,
  then for each index \<open>i\<close> of the dialogue list, in order, the tellraw statement of
  dialogue \<open>i\<close> gated by \<open>matches\<close> and the decimal numeral of \<open>t_i\<close>, then the closing
  statement, gated by the decimal numeral of the last threshold followed by \<open>..\<close>, which
  sets the score of the objective to \<open>-1\<close>; and each of these numerals reads as its
  threshold.
\<close>

theorem generate_thresholds:
  assumes safe: \<open>\<forall>i \<le> length (dialogues st). \<bar>thresholdAt st i\<bar> \<le> 2 ^ 53\<close>
  shows \<open>finalScript (generateDialogues st) =
     ''scoreboard players add @s '' @ ScriptData.name (scriptData st) @ '' ''
       @ numberToString (Finite (initialCounter (scriptData st))) @ [LF]
     @ concat (map (\<lambda>i.
          ''execute if score @s '' @ ScriptData.name (scriptData st) @ '' matches ''
            @ showInt (thresholdAt st i)
            @ '' run tellraw @a ['' @ contentPrefix (user (dialogues st ! i))
            @ '', {"text":"'' @ content (dialogues st ! i)
            @ ''", "italic": true, "color":"gray", "bold": "false"}]'' @ [LF])
          [0..<length (dialogues st)])
     @ ''execute if score @s '' @ ScriptData.name (scriptData st) @ '' matches ''
       @ showInt (thresholdAt st (length (dialogues st)))
       @ ''.. run scoreboard players set @s '' @ ScriptData.name (scriptData st)
       @ '' -1'' @ [LF]
   \<and> (\<forall>i \<le> length (dialogues st).
         decimalValue (showInt (thresholdAt st i)) = Some (thresholdAt st i))\<close>
proof -
  have run: "runningSpan st i = Finite (thresholdAt st i)" if "i \<le> length (dialogues st)" for i
    using that safe by (intro runningSpan_exact) auto
  have print: "numberToString (runningSpan st i) = showInt (thresholdAt st i)"
    if "i \<le> length (dialogues st)" for i
    using that safe run [OF that] by simp
  have statements: "map (\<lambda>j. getSingleDialog st (runningSpan st j) (dialogues st ! j))
        [0..<length (dialogues st)]
      = map (\<lambda>i.
          ''execute if score @s '' @ ScriptData.name (scriptData st) @ '' matches ''
            @ showInt (thresholdAt st i)
            @ '' run tellraw @a ['' @ contentPrefix (user (dialogues st ! i))
            @ [CHR '','', CHR '' '', CHR ''{'', CHR 0x22] @ ''text'' @ [CHR 0x22, CHR '':'', CHR 0x22]
            @ content (dialogues st ! i)
            @ [CHR 0x22, CHR '','', CHR '' '', CHR 0x22] @ ''italic'' @ [CHR 0x22] @ '': true, ''
            @ [CHR 0x22] @ ''color'' @ [CHR 0x22, CHR '':'', CHR 0x22] @ ''gray'' @ [CHR 0x22]
            @ '', '' @ [CHR 0x22] @ ''bold'' @ [CHR 0x22] @ '': '' @ [CHR 0x22] @ ''false''
            @ [CHR 0x22] @ ''}]'' @ [LF])
          [0..<length (dialogues st)]"
    by (rule map_cong) (simp_all add: getSingleDialog_def print)
  have closing: "getScriptFinalStatement st (runningSpan st (length (dialogues st)))
      = ''execute if score @s '' @ ScriptData.name (scriptData st) @ '' matches ''
       @ showInt (thresholdAt st (length (dialogues st)))
       @ ''.. run scoreboard players set @s '' @ ScriptData.name (scriptData st)
       @ '' -1'' @ [LF]"
    by (simp add: getScriptFinalStatement_def print)
  show ?thesis
    unfolding finalScript_generateDialogues statements closing
    by (simp add: getScriptIncrementer_def decimalValue_showInt)
qed

theorem generate_thresholds_witness:
  \<open>list_all (\<lambda>i. \<bar>thresholdAt exampleApp i\<bar> \<le> 2 ^ 53) [0, 1]
   \<and> length (dialogues exampleApp) = 1
   \<and> thresholdAt exampleApp 0 = 10 \<and> thresholdAt exampleApp 1 = 22
   \<and> finalScript (generateDialogues exampleApp) =
       ''scoreboard players add @s S 1'' @ [LF]
       @ ''execute if score @s S matches 10 run tellraw @a [Alice: , {"text":"Hello there", "italic": true, "color":"gray", "bold": "false"}]'' @ [LF]
       @ ''execute if score @s S matches 22.. run scoreboard players set @s S -1'' @ [LF]
   \<and> decimalValue ''22'' = Some 22\<close>
proof -
  have len: "length (dialogues exampleApp) = 1" by (simp add: exampleApp_def)
  have t0: "thresholdAt exampleApp 0 = 10" by (simp add: thresholdAt_def exampleApp_def)
  have t1: "thresholdAt exampleApp 1 = 22" by (simp add: thresholdAt_def exampleApp_def)
  have safe: "\<forall>i \<le> length (dialogues exampleApp). \<bar>thresholdAt exampleApp i\<bar> \<le> 2 ^ 53"
    unfolding len using t0 t1 by (auto simp: le_Suc_eq)
  have safe': "list_all (\<lambda>i. \<bar>thresholdAt exampleApp i\<bar> \<le> 2 ^ 53) [0, 1]"
    using t0 t1 by simp
  note inst = generate_thresholds [OF safe]
  have rhs: \<open>''scoreboard players add @s '' @ ScriptData.name (scriptData exampleApp) @ '' ''
       @ numberToString (Finite (initialCounter (scriptData exampleApp))) @ [LF]
     @ concat (map (\<lambda>i.
          ''execute if score @s '' @ ScriptData.name (scriptData exampleApp) @ '' matches ''
            @ showInt (thresholdAt exampleApp i)
            @ '' run tellraw @a ['' @ contentPrefix (user (dialogues exampleApp ! i))
            @ '', {"text":"'' @ content (dialogues exampleApp ! i)
            @ ''", "italic": true, "color":"gray", "bold": "false"}]'' @ [LF])
          [0..<length (dialogues exampleApp)])
     @ ''execute if score @s '' @ ScriptData.name (scriptData exampleApp) @ '' matches ''
       @ showInt (thresholdAt exampleApp (length (dialogues exampleApp)))
       @ ''.. run scoreboard players set @s '' @ ScriptData.name (scriptData exampleApp)
       @ '' -1'' @ [LF]
     = ''scoreboard players add @s S 1'' @ [LF]
       @ ''execute if score @s S matches 10 run tellraw @a [Alice: , {"text":"Hello there", "italic": true, "color":"gray", "bold": "false"}]'' @ [LF]
       @ ''execute if score @s S matches 22.. run scoreboard players set @s S -1'' @ [LF]\<close>
    by code_simp
  have script: \<open>finalScript (generateDialogues exampleApp) =
       ''scoreboard players add @s S 1'' @ [LF]
       @ ''execute if score @s S matches 10 run tellraw @a [Alice: , {"text":"Hello there", "italic": true, "color":"gray", "bold": "false"}]'' @ [LF]
       @ ''execute if score @s S matches 22.. run scoreboard players set @s S -1'' @ [LF]\<close>
    using inst [THEN conjunct1] rhs by (rule trans)
  have s22: "showInt 22 = ''22''" by (simp add: showInt_def showNat.simps)
  have "decimalValue (showInt (thresholdAt exampleApp 1)) = Some (thresholdAt exampleApp 1)"
    using inst [THEN conjunct2] len by simp
  then have readback: "decimalValue ''22'' = Some 22" by (simp only: t1 s22)
  show ?thesis using safe' len t0 t1 script readback by (intro conjI)
qed

text \<open>
  The claim C1 as it is written, for every configuration and every dialogue list, fails
  where a sum leaves the range in which the doubles hold every integer: from the initial
  span \<open>2^53\<close>, two spans of 1 give the thresholds \<open>2^53 + 1\<close> and \<open>2^53 + 2\<close>, and the
  script gates the second statement and the closing statement at \<open>2^53\<close>.
\<close>

theorem generate_thresholds_counterexample:
  \<open>thresholdAt roundingApp 0 = 9007199254740992
   \<and> thresholdAt roundingApp 1 = 9007199254740993
   \<and> thresholdAt roundingApp 2 = 9007199254740994
   \<and> finalScript (generateDialogues roundingApp) =
       ''scoreboard players add @s S 1'' @ [LF]
       @ ''execute if score @s S matches 9007199254740992 run tellraw @a [Alice: , {"text":"a", "italic": true, "color":"gray", "bold": "false"}]'' @ [LF]
       @ ''execute if score @s S matches 9007199254740992 run tellraw @a [Alice: , {"text":"b", "italic": true, "color":"gray", "bold": "false"}]'' @ [LF]
       @ ''execute if score @s S matches 9007199254740992.. run scoreboard players set @s S -1'' @ [LF]\<close>
proof -
  have len: "length (dialogues roundingApp) = 2" by (simp add: roundingApp_def)
  have upt: "[0..<2] = [0, Suc 0]" by (simp add: numeral_2_eq_2)
  have t: "thresholdAt roundingApp 0 = 9007199254740992"
      "thresholdAt roundingApp 1 = 9007199254740993"
      "thresholdAt roundingApp 2 = 9007199254740994"
    by (simp_all add: thresholdAt_def roundingApp_def numeral_2_eq_2)
  have p: "numberToString (Finite 9007199254740992) = ''9007199254740992''"
    by (simp add: showInt_2_53)
  have one: "numberToString (Finite 1) = ''1''" by (simp add: showInt_def showNat.simps)
  have fields: "ScriptData.name (scriptData roundingApp) = ''S''"
      "initialCounter (scriptData roundingApp) = 1"
      "dialogues roundingApp ! 0 = \<lparr>user = alice, span = 1, content = ''a''\<rparr>"
      "dialogues roundingApp ! Suc 0 = \<lparr>user = alice, span = 1, content = ''b''\<rparr>"
    by (simp_all add: roundingApp_def)
  have script: \<open>finalScript (generateDialogues roundingApp) =
       ''scoreboard players add @s S 1'' @ [LF]
       @ ''execute if score @s S matches 9007199254740992 run tellraw @a [Alice: , {"text":"a", "italic": true, "color":"gray", "bold": "false"}]'' @ [LF]
       @ ''execute if score @s S matches 9007199254740992 run tellraw @a [Alice: , {"text":"b", "italic": true, "color":"gray", "bold": "false"}]'' @ [LF]
       @ ''execute if score @s S matches 9007199254740992.. run scoreboard players set @s S -1'' @ [LF]\<close>
    unfolding finalScript_generateDialogues len upt
    by (simp add: getScriptIncrementer_def getSingleDialog_def getScriptFinalStatement_def
        runningSpan_roundingApp fields p one alice_def del: numberToString.simps)
  show ?thesis using t script by (intro conjI)
qed

text \<open>
  C5: on an empty dialogue list, with the configuration named \<open>X\<close>, counter 1 and initial
  span 10, the generated script is exactly the increment statement and the closing
  statement at threshold 10, each ended by a line feed, whatever the rest of the state.
\<close>

theorem generate_empty:
  "finalScript (generateDialogues
       \<lparr>usersFields = us, dialogues = [], finalScript = fs, rawScript = rs,
        scriptData = \<lparr>ScriptData.name = ''X'', initialCounter = 1, initialSpan = 10\<rparr>\<rparr>)
     = ''scoreboard players add @s X 1'' @ [LF]
       @ ''execute if score @s X matches 10.. run scoreboard players set @s X -1'' @ [LF]"
  by (simp add: generateDialogues_def generateLoop.simps getScriptIncrementer_def
      getScriptFinalStatement_def showInt_def showNat.simps)

lemma generate_frame:
  assumes "scriptData s1 = scriptData s2" and "dialogues s1 = dialogues s2"
  shows "finalScript (generateDialogues s1) = finalScript (generateDialogues s2)"
proof -
  have single: "getSingleDialog s1 = getSingleDialog s2"
    using assms(1) by (simp add: getSingleDialog_def fun_eq_iff)
  have running: "runningSpan s1 = runningSpan s2"
    using assms by (simp add: runningSpan_def fun_eq_iff)
  show ?thesis
    unfolding finalScript_generateDialogues
    using assms single running
    by (simp add: getScriptIncrementer_def getScriptFinalStatement_def)
qed

text \<open>
  C7: the generated script depends on nothing but the configuration and the dialogue
  list: two states of the component that agree on \<open>scriptData\<close> and \<open>dialogues\<close> get the
  same script, whatever their roster, raw text and previous script; and generating a
  second time changes nothing.
\<close>

theorem generate_deterministic:
  assumes "scriptData s1 = scriptData s2" and "dialogues s1 = dialogues s2"
  shows "finalScript (generateDialogues s1) = finalScript (generateDialogues s2)
       \<and> generateDialogues (generateDialogues s1) = generateDialogues s1"
proof
  show "finalScript (generateDialogues s1) = finalScript (generateDialogues s2)"
    using assms by (rule generate_frame)
next
  let ?s = "generateDialogues s1"
  have sd: "scriptData ?s = scriptData s1" and ds: "dialogues ?s = dialogues s1"
    by (subst generateDialogues_others, simp)+
  have "finalScript (generateDialogues ?s) = finalScript ?s"
    using sd ds by (rule generate_frame)
  then show "generateDialogues ?s = ?s"
    by (subst generateDialogues_others) simp
qed

theorem generate_deterministic_witness:
  "scriptData (exampleApp\<lparr>finalScript := ''old'', rawScript := ''A: x'', usersFields := []\<rparr>)
     = scriptData exampleApp
   \<and> dialogues (exampleApp\<lparr>finalScript := ''old'', rawScript := ''A: x'', usersFields := []\<rparr>)
     = dialogues exampleApp
   \<and> finalScript (generateDialogues
        (exampleApp\<lparr>finalScript := ''old'', rawScript := ''A: x'', usersFields := []\<rparr>))
     = finalScript (generateDialogues exampleApp)
   \<and> finalScript (generateDialogues exampleApp)
     = ''scoreboard players add @s S 1'' @ [LF]
       @ getSingleDialog exampleApp (Finite 10)
           \<lparr>user = alice, span = 12, content = ''Hello there''\<rparr>
       @ ''execute if score @s S matches 22.. run scoreboard players set @s S -1'' @ [LF]"
proof -
  have "finalScript (generateDialogues exampleApp)
     = ''scoreboard players add @s S 1'' @ [LF]
       @ getSingleDialog exampleApp (Finite 10)
           \<lparr>user = alice, span = 12, content = ''Hello there''\<rparr>
       @ ''execute if score @s S matches 22.. run scoreboard players set @s S -1'' @ [LF]"
    by (simp add: generateDialogues_def generateLoop.simps getScriptIncrementer_def
        getScriptFinalStatement_def showInt_def showNat.simps exampleApp_def toDouble_exact)
  then show ?thesis
    using generate_deterministic
      [of "exampleApp\<lparr>finalScript := ''old'', rawScript := ''A: x'', usersFields := []\<rparr>"
          exampleApp]
    by simp
qed

section \<open>The parser: the loop body and the loop\<close>

lemma parseLoop_append:
  "parseLoop st (xs @ ys) acc = parseLoop st ys (parseLoop st xs acc)"
  by (induction xs arbitrary: acc) auto

lemma parseLine_recognized:
  assumes "matchSpeaker line = Some (speaker, ct)"
      and "resolveSpeaker st speaker = Some u"
  shows "parseLine st line (ds, console) =
           (ds @ [\<lparr>user = u, span = getSpanFromLine line, content = ct\<rparr>], console)"
  using assms by (simp add: parseLine_def resolveSpeaker_def)

lemma parseLine_dialogOf:
  "dialogOf st line = Some d \<Longrightarrow> parseLine st line (ds, console) = (ds @ [d], console)"
  by (auto simp: dialogOf_def parseLine_def resolveSpeaker_def split: option.splits)

lemma parseLine_unknown:
  assumes "matchSpeaker line = Some (speaker, ct)"
      and "resolveSpeaker st speaker = None"
  shows "parseLine st line (ds, console) =
           (ds, console @ [''Unknown speaker: '' @ toLowerCase speaker])"
  using assms by (simp add: parseLine_def resolveSpeaker_def)

lemma parseLine_continuation:
  assumes "matchSpeaker line = None" and "ds \<noteq> []"
  shows "parseLine st line (ds, console) =
           (butlast ds @ [(last ds)\<lparr>content := content (last ds) @ [LF] @ line\<rparr>], console)"
  using assms by (simp add: parseLine_def)

lemma parseLine_orphan:
  assumes "matchSpeaker line = None"
  shows "parseLine st line ([], console) = ([], console @ [''Invalid dialogue line: '' @ line])"
  using assms by (simp add: parseLine_def)

lemma fst_parseLine_console:
  "fst (parseLine st line (ds, console)) = fst (parseLine st line (ds, console'))"
  by (simp add: parseLine_def Let_def split: option.splits)

lemma fst_parseLoop_console:
  "fst (parseLoop st ls (ds, console)) = fst (parseLoop st ls (ds, console'))"
proof (induction ls arbitrary: ds console console')
  case Nil
  show ?case by simp
next
  case (Cons l ls)
  obtain ds1 c1 where a: "parseLine st l (ds, console) = (ds1, c1)" by fastforce
  obtain ds2 c2 where b: "parseLine st l (ds, console') = (ds2, c2)" by fastforce
  have "ds1 = ds2" using fst_parseLine_console [of st l ds console console'] a b by simp
  then show ?case using a b Cons.IH [of ds1 c1 c2] by simp
qed

text \<open>
  The loop body looks at the last dialogue only: dialogues in front of a non-empty array
  stay as they are.
\<close>

lemma parseLine_prefix:
  assumes "ds \<noteq> []"
  shows "\<exists>ds' c'. ds' \<noteq> [] \<and> parseLine st l (ds, console) = (ds', c')
           \<and> fst (parseLine st l (acc @ ds, console)) = acc @ ds'"
  using assms
  by (auto simp: parseLine_def Let_def butlast_append split: option.splits)

lemma parseLoop_prefix:
  "ds \<noteq> [] \<Longrightarrow>
   fst (parseLoop st ls (acc @ ds, console)) = acc @ fst (parseLoop st ls (ds, console))"
proof (induction ls arbitrary: ds console)
  case Nil
  show ?case by simp
next
  case (Cons l ls)
  from parseLine_prefix [OF Cons.prems, of st l console acc]
  obtain ds' c' where ne: "ds' \<noteq> []" and step: "parseLine st l (ds, console) = (ds', c')"
    and pre: "fst (parseLine st l (acc @ ds, console)) = acc @ ds'" by blast
  obtain c'' where "parseLine st l (acc @ ds, console) = (acc @ ds', c'')"
    using pre by (cases "parseLine st l (acc @ ds, console)") auto
  then show ?case
    using step Cons.IH [OF ne, of c'] fst_parseLoop_console [of st ls "acc @ ds'" c'' c']
    by simp
qed

lemma parseLoop_recognized_head:
  assumes "recognized st r"
  shows "fst (parseLoop st (r # rs) (acc, console)) = acc @ parseLines st (r # rs)"
proof -
  from assms obtain d where d: "dialogOf st r = Some d" by (auto simp: recognized_def)
  have "fst (parseLoop st (r # rs) (acc, console)) = fst (parseLoop st rs (acc @ [d], console))"
    using d by (simp add: parseLine_dialogOf)
  also have "\<dots> = acc @ fst (parseLoop st rs ([d], console))"
    by (rule parseLoop_prefix) simp
  also have "fst (parseLoop st rs ([d], console)) = fst (parseLoop st rs ([d], []))"
    by (rule fst_parseLoop_console)
  also have "\<dots> = parseLines st (r # rs)"
    using d by (simp add: parseLines_def parseLine_dialogOf [of st r d "[]" "[]", simplified])
  finally show ?thesis .
qed

lemma parseLoop_block:
  assumes "list_all (\<lambda>l. \<not> recognized st l) mid"
  shows "fst (parseLoop st mid (ds @ [d], console)) =
           ds @ [d\<lparr>content := content d
              @ concat (map (\<lambda>l. LF # l) (filter (\<lambda>l. matchSpeaker l = None) mid))\<rparr>]"
  using assms
proof (induction mid arbitrary: d console)
  case Nil
  show ?case by simp
next
  case (Cons l mid)
  then have nr: "\<not> recognized st l" and rest: "list_all (\<lambda>l. \<not> recognized st l) mid" by auto
  show ?case
  proof (cases "matchSpeaker l")
    case None
    then have "parseLine st l (ds @ [d], console) =
        (ds @ [d\<lparr>content := content d @ [LF] @ l\<rparr>], console)"
      by (simp add: parseLine_continuation)
    then show ?thesis using None Cons.IH [OF rest] by simp
  next
    case (Some p)
    obtain speaker ct where p: "p = (speaker, ct)" by (cases p)
    have "resolveSpeaker st speaker = None"
      using nr Some p by (auto simp: recognized_def dialogOf_def split: option.splits)
    then have "parseLine st l (ds @ [d], console) =
        (ds @ [d], console @ [''Unknown speaker: '' @ toLowerCase speaker])"
      using Some p by (simp add: parseLine_unknown)
    then show ?thesis using Some Cons.IH [OF rest] by simp
  qed
qed


section \<open>The parser: claims\<close>

text \<open>
  C3, as amended: with the roster of the single character Alice (prefix \<open>A\<close>), the raw
  text \<open>A: Hello there\<close> parses to exactly one dialogue, of user Alice and content
  \<open>Hello there\<close>, whose span is 12: the three words \<open>A\<close>, \<open>Hello\<close>, \<open>there\<close> times 4.
\<close>

theorem parse_example:
  "parseDialogue
       \<lparr>usersFields = [alice], dialogues = ds, finalScript = fs, rawScript = rs, scriptData = sd\<rparr>
       ''A: Hello there''
     = [\<lparr>user = alice, span = 12, content = ''Hello there''\<rparr>]"
  by code_simp

text \<open>The span that the claim C3 states, 8, is not the span that the parser computes.\<close>

theorem parse_example_counterexample:
  "parseDialogue (initialApp [alice]) ''A: Hello there''
     \<noteq> [\<lparr>user = alice, span = 8, content = ''Hello there''\<rparr>]"
  by code_simp

text \<open>
  C4, as amended: let a line \<open>L\<close> be a speaker line of a known character, followed by
  lines \<open>mid\<close> none of which produces a dialogue, and then by the end of the text or by a
  line that produces a dialogue. Then the dialogue of \<open>L\<close> has the content of \<open>L\<close>
  followed, for each line of \<open>mid\<close> that does not match the speaker pattern, in order,
  by a line feed and that line; the lines of \<open>mid\<close> add no dialogue. When no line of
  \<open>mid\<close> matches the speaker pattern, these are all of \<open>mid\<close>.
\<close>

theorem continuation_lines_append:
  assumes lines: "split_nl raw = pre @ L # mid @ rest"
      and L: "matchSpeaker L = Some (speaker, ct)"
      and u: "resolveSpeaker st speaker = Some u"
      and mid: "list_all (\<lambda>l. \<not> recognized st l) mid"
      and rest: "case rest of [] \<Rightarrow> True | r # rs \<Rightarrow> recognized st r"
  shows "parseDialogue st raw =
           parseLines st pre
           @ [\<lparr>user = u, span = getSpanFromLine L,
               content = ct @ concat (map (\<lambda>l. LF # l) (filter (\<lambda>l. matchSpeaker l = None) mid))\<rparr>]
           @ parseLines st rest"
proof -
  let ?d = "\<lparr>user = u, span = getSpanFromLine L, content = ct\<rparr>"
  let ?d' = "?d\<lparr>content := content ?d
      @ concat (map (\<lambda>l. LF # l) (filter (\<lambda>l. matchSpeaker l = None) mid))\<rparr>"
  obtain dp cp where pre: "parseLoop st pre ([], []) = (dp, cp)" by fastforce
  have stepL: "parseLine st L (dp, cp) = (dp @ [?d], cp)"
    using L u by (rule parseLine_recognized)
  obtain dm cm where blockm: "parseLoop st mid (dp @ [?d], cp) = (dm, cm)" by fastforce
  have dm: "dm = dp @ [?d']"
    using parseLoop_block [OF mid, of dp ?d cp] blockm by simp
  have "parseDialogue st raw = fst (parseLoop st rest (dm, cm))"
    using pre stepL blockm
    by (simp add: parseDialogue_def parseDialogueIO_def lines parseLoop_append)
  also have "\<dots> = dm @ parseLines st rest"
  proof (cases rest)
    case Nil
    then show ?thesis by (simp add: parseLines_def)
  next
    case (Cons r rs)
    then have "recognized st r" using rest by simp
    then show ?thesis unfolding Cons by (rule parseLoop_recognized_head)
  qed
  finally show ?thesis
    using dm pre by (simp add: parseLines_def)
qed

theorem continuation_lines_append_witness:
  "split_nl (''A: one'' @ [LF] @ ''two'' @ [LF] @ ''three'' @ [LF] @ ''a: four'')
     = [] @ ''A: one'' # [''two'', ''three''] @ [''a: four'']
   \<and> matchSpeaker ''A: one'' = Some (''A'', ''one'')
   \<and> resolveSpeaker (initialApp [alice]) ''A'' = Some alice
   \<and> list_all (\<lambda>l. \<not> recognized (initialApp [alice]) l) [''two'', ''three'']
   \<and> (case [''a: four''] of [] \<Rightarrow> True | r # rs \<Rightarrow> recognized (initialApp [alice]) r)
   \<and> parseDialogue (initialApp [alice])
        (''A: one'' @ [LF] @ ''two'' @ [LF] @ ''three'' @ [LF] @ ''a: four'')
      = [\<lparr>user = alice, span = 8, content = ''one'' @ [LF] @ ''two'' @ [LF] @ ''three''\<rparr>,
         \<lparr>user = alice, span = 8, content = ''four''\<rparr>]"
proof -
  let ?st = "initialApp [alice]"
  have h1: "split_nl (''A: one'' @ [LF] @ ''two'' @ [LF] @ ''three'' @ [LF] @ ''a: four'')
     = [] @ ''A: one'' # [''two'', ''three''] @ [''a: four'']" by code_simp
  have h2: "matchSpeaker ''A: one'' = Some (''A'', ''one'')" by code_simp
  have h3: "resolveSpeaker ?st ''A'' = Some alice" by code_simp
  have h4: "list_all (\<lambda>l. \<not> recognized ?st l) [''two'', ''three'']" by code_simp
  have h5: "case [''a: four''] of [] \<Rightarrow> True | r # rs \<Rightarrow> recognized ?st r" by code_simp
  have rhs: "parseLines ?st []
           @ [\<lparr>user = alice, span = getSpanFromLine ''A: one'',
               content = ''one'' @ concat (map (\<lambda>l. LF # l)
                   (filter (\<lambda>l. matchSpeaker l = None) [''two'', ''three'']))\<rparr>]
           @ parseLines ?st [''a: four'']
      = [\<lparr>user = alice, span = 8, content = ''one'' @ [LF] @ ''two'' @ [LF] @ ''three''\<rparr>,
         \<lparr>user = alice, span = 8, content = ''four''\<rparr>]" by code_simp
  have c: "parseDialogue ?st
        (''A: one'' @ [LF] @ ''two'' @ [LF] @ ''three'' @ [LF] @ ''a: four'')
      = [\<lparr>user = alice, span = 8, content = ''one'' @ [LF] @ ''two'' @ [LF] @ ''three''\<rparr>,
         \<lparr>user = alice, span = 8, content = ''four''\<rparr>]"
    using continuation_lines_append [OF h1 h2 h3 h4 h5] rhs by (rule trans)
  show ?thesis
    using h1 h2 h3 h4 h5 c by (intro conjI)
qed


text \<open>
  The claim C4 as it is written fails where a line of an unknown speaker stands between
  continuation lines: \<open>A: hi\<close> is followed immediately by the one continuation line
  \<open>foo\<close>, and its dialogue still ends up with \<open>bar\<close> appended.
\<close>

theorem continuation_counterexample:
  "split_nl (''A: hi'' @ [LF] @ ''foo'' @ [LF] @ ''Z: x'' @ [LF] @ ''bar'')
     = [''A: hi'', ''foo'', ''Z: x'', ''bar'']
   \<and> dialogOf (initialApp [alice]) ''A: hi'' = Some \<lparr>user = alice, span = 8, content = ''hi''\<rparr>
   \<and> matchSpeaker ''foo'' = None
   \<and> matchSpeaker ''Z: x'' = Some (''Z'', ''x'')
   \<and> map content (parseDialogue (initialApp [alice])
          (''A: hi'' @ [LF] @ ''foo'' @ [LF] @ ''Z: x'' @ [LF] @ ''bar''))
       = [''hi'' @ [LF] @ ''foo'' @ [LF] @ ''bar'']
   \<and> map content (parseDialogue (initialApp [alice])
          (''A: hi'' @ [LF] @ ''foo'' @ [LF] @ ''Z: x'' @ [LF] @ ''bar''))
       \<noteq> [''hi'' @ [LF] @ ''foo'']"
  by code_simp


text \<open>
  C6: a line that matches the speaker pattern and whose lower-cased tag is no roster
  entry's lower-cased \<open>scriptPrefix\<close> adds \<open>Unknown speaker: tag\<close> to the console, leaves
  the dialogues as they are, and the loop goes on with the lines behind it: the
  dialogues returned are those of the text without that line. The parser is a total
  function; the source has no \<open>throw\<close>, and its only array access is guarded.
\<close>

theorem unknown_speaker_dropped:
  assumes lines: "split_nl raw = pre @ line # post"
      and line: "matchSpeaker line = Some (speaker, ct)"
      and unknown: "\<forall>u \<in> set (usersFields st). toLowerCase (scriptPrefix u) \<noteq> toLowerCase speaker"
  shows "parseDialogueIO st raw =
           (case parseLoop st pre ([], []) of (ds, console) \<Rightarrow>
              parseLoop st post (ds, console @ [''Unknown speaker: '' @ toLowerCase speaker]))
       \<and> parseDialogue st raw = parseLines st (pre @ post)"
proof -
  have none: "resolveSpeaker st speaker = None"
    using unknown by (simp add: resolveSpeaker_def find_None_iff)
  obtain ds console where pre: "parseLoop st pre ([], []) = (ds, console)" by fastforce
  have step: "parseLine st line (ds, console) =
      (ds, console @ [''Unknown speaker: '' @ toLowerCase speaker])"
    using line none by (rule parseLine_unknown)
  have io: "parseDialogueIO st raw =
      parseLoop st post (ds, console @ [''Unknown speaker: '' @ toLowerCase speaker])"
    using pre step by (simp add: parseDialogueIO_def lines parseLoop_append)
  have "parseDialogue st raw = fst (parseLoop st post (ds, console))"
    unfolding parseDialogue_def io by (rule fst_parseLoop_console)
  also have "\<dots> = parseLines st (pre @ post)"
    using pre by (simp add: parseLines_def parseLoop_append)
  finally show ?thesis using io pre by simp
qed

theorem unknown_speaker_dropped_witness:
  "split_nl (''A: hi'' @ [LF] @ ''Bob: hello'' @ [LF] @ ''more'')
     = [''A: hi''] @ ''Bob: hello'' # [''more'']
   \<and> matchSpeaker ''Bob: hello'' = Some (''Bob'', ''hello'')
   \<and> list_all (\<lambda>u. toLowerCase (scriptPrefix u) \<noteq> toLowerCase ''Bob'')
         (usersFields (initialApp [alice]))
   \<and> parseDialogueIO (initialApp [alice]) (''A: hi'' @ [LF] @ ''Bob: hello'' @ [LF] @ ''more'')
      = ([\<lparr>user = alice, span = 8, content = ''hi'' @ [LF] @ ''more''\<rparr>],
         [''Unknown speaker: bob''])
   \<and> parseDialogue (initialApp [alice]) (''A: hi'' @ [LF] @ ''Bob: hello'' @ [LF] @ ''more'')
      = parseLines (initialApp [alice]) [''A: hi'', ''more'']"
proof -
  let ?st = "initialApp [alice]"
  have h1: "split_nl (''A: hi'' @ [LF] @ ''Bob: hello'' @ [LF] @ ''more'')
     = [''A: hi''] @ ''Bob: hello'' # [''more'']" by code_simp
  have h2: "matchSpeaker ''Bob: hello'' = Some (''Bob'', ''hello'')" by code_simp
  have h3: "\<forall>u \<in> set (usersFields ?st). toLowerCase (scriptPrefix u) \<noteq> toLowerCase ''Bob''"
    by code_simp
  have h3': "list_all (\<lambda>u. toLowerCase (scriptPrefix u) \<noteq> toLowerCase ''Bob'') (usersFields ?st)"
    by code_simp
  have rhs: "(case parseLoop ?st [''A: hi''] ([], []) of (ds, console) \<Rightarrow>
              parseLoop ?st [''more''] (ds, console @ [''Unknown speaker: '' @ toLowerCase ''Bob'']))
      = ([\<lparr>user = alice, span = 8, content = ''hi'' @ [LF] @ ''more''\<rparr>],
         [''Unknown speaker: bob''])" by code_simp
  have app: "[''A: hi''] @ [''more''] = [''A: hi'', ''more'']" by simp
  note c = unknown_speaker_dropped [OF h1 h2 h3]
  have c1: "parseDialogueIO ?st (''A: hi'' @ [LF] @ ''Bob: hello'' @ [LF] @ ''more'')
      = ([\<lparr>user = alice, span = 8, content = ''hi'' @ [LF] @ ''more''\<rparr>],
         [''Unknown speaker: bob''])"
    using c [THEN conjunct1] rhs by (rule trans)
  have c2: "parseDialogue ?st (''A: hi'' @ [LF] @ ''Bob: hello'' @ [LF] @ ''more'')
      = parseLines ?st [''A: hi'', ''more'']"
    using c [THEN conjunct2] unfolding app .
  show ?thesis
    using h1 h2 h3' c1 c2 by (intro conjI)
qed

section \<open>The word count\<close>

text \<open>
  The number of matches of the global search is the number of run starts, counted from
  the left, and that is the number of maximal runs of letters.
\<close>

lemma countRunStarts_skip:
  "countRunStarts False s = countRunStarts False (dropWhile (\<lambda>c. \<not> isAlpha c) s)"
  by (induction s) auto

lemma countRunStarts_run:
  "countRunStarts True s = countRunStarts False (dropWhile isAlpha s)"
  by (induction s) auto

lemma length_matchAllAlpha:
  "length (matchAllAlpha s) = countRunStarts False s"
proof (induction s rule: matchAllAlpha.induct)
  case (1 s)
  let ?s' = "dropWhile (\<lambda>c. \<not> isAlpha c) s"
  show ?case
  proof (cases ?s')
    case Nil
    then have "matchAllAlpha s = []" by (simp add: matchAllAlpha.simps [of s])
    moreover have "countRunStarts False s = 0"
      using countRunStarts_skip [of s] Nil by simp
    ultimately show ?thesis by simp
  next
    case (Cons c t)
    have c: "isAlpha c" using hd_dropWhile [of "\<lambda>c. \<not> isAlpha c" s] Cons by simp
    have "length (matchAllAlpha s) = Suc (length (matchAllAlpha (dropWhile isAlpha ?s')))"
      using Cons by (simp add: matchAllAlpha.simps [of s])
    also have "\<dots> = Suc (countRunStarts False (dropWhile isAlpha ?s'))"
      using "1.IH" [of ?s'] Cons by simp
    also have "dropWhile isAlpha ?s' = dropWhile isAlpha t" using Cons c by simp
    also have "Suc (countRunStarts False (dropWhile isAlpha t)) = countRunStarts False ?s'"
      using Cons c countRunStarts_run [of t] by simp
    finally show ?thesis using countRunStarts_skip [of s] by simp
  qed
qed

lemma countRunStarts_index:
  "countRunStarts prev s =
     length (filter (\<lambda>i. isAlpha (s ! i) \<and> (if i = 0 then \<not> prev else \<not> isAlpha (s ! (i - 1))))
               [0..<length s])"
proof (induction s arbitrary: prev)
  case Nil
  show ?case by simp
next
  case (Cons c cs)
  have upt: "[0..<length (c # cs)] = 0 # map Suc [0..<length cs]"
    by (simp add: upt_conv_Cons map_Suc_upt del: upt_Suc)
  have shift: "filter (\<lambda>i. isAlpha ((c # cs) ! i)
          \<and> (if i = 0 then \<not> prev else \<not> isAlpha ((c # cs) ! (i - 1)))) (map Suc [0..<length cs])
      = map Suc (filter (\<lambda>i. isAlpha (cs ! i)
          \<and> (if i = 0 then \<not> isAlpha c else \<not> isAlpha (cs ! (i - 1)))) [0..<length cs])"
    unfolding filter_map
    by (rule arg_cong [where f = "map Suc"], rule filter_cong) (auto simp: nth_Cons')
  show ?case
    unfolding upt using shift Cons.IH [of "isAlpha c"] by simp
qed

lemma length_matchAllAlpha_alphaRunCount:
  "length (matchAllAlpha s) = alphaRunCount s"
proof -
  have "(\<lambda>i. isAlpha (s ! i) \<and> (if i = 0 then \<not> False else \<not> isAlpha (s ! (i - 1))))
      = (\<lambda>i. isAlpha (s ! i) \<and> (i = 0 \<or> \<not> isAlpha (s ! (i - 1))))"
    by auto
  then show ?thesis
    using countRunStarts_index [of False s]
    by (simp add: length_matchAllAlpha alphaRunCount_def)
qed

lemma getSpanFromLine_count:
  "getSpanFromLine line = 4 * int (alphaRunCount (trim line))"
  unfolding length_matchAllAlpha_alphaRunCount [symmetric]
  by (simp add: getSpanFromLine_def Let_def)

section \<open>Every dialogue stems from its line\<close>

lemma producedBy_dialogOf:
  "dialogOf st line = Some d \<Longrightarrow> producedBy st d line"
  by (simp add: producedBy_def)

lemma producedBy_extend:
  "producedBy st d line \<Longrightarrow> producedBy st (d\<lparr>content := content d @ extra\<rparr>) line"
  by (auto simp: producedBy_def split: option.splits)

lemma list_all2_last_update:
  assumes "list_all2 P ds src" and "ds \<noteq> []" and "\<And>l. P (last ds) l \<Longrightarrow> P (f (last ds)) l"
  shows "list_all2 P (butlast ds @ [f (last ds)]) src"
proof -
  obtain bs b where ds: "ds = bs @ [b]" using assms(2) by (metis append_butlast_last_id)
  obtain ss s where src: "src = ss @ [s]" and bs: "list_all2 P bs ss" and b: "P b s"
    using assms(1) unfolding ds by (auto simp: list_all2_append1 list_all2_Cons1)
  show ?thesis
    using bs b assms(3) [of s] unfolding ds src by (simp add: list_all2_appendI)
qed

lemma parseLine_producedBy:
  assumes "list_all2 (producedBy st) ds src"
  shows "list_all2 (producedBy st) (fst (parseLine st l (ds, console)))
           (src @ filter (recognized st) [l])"
proof (cases "dialogOf st l")
  case (Some d)
  then show ?thesis
    using assms
    by (simp add: parseLine_dialogOf recognized_def list_all2_appendI producedBy_dialogOf)
next
  case None
  then have nr: "\<not> recognized st l" by (simp add: recognized_def)
  show ?thesis
  proof (cases "matchSpeaker l")
    case (Some p)
    obtain speaker ct where p: "p = (speaker, ct)" by (cases p)
    have "resolveSpeaker st speaker = None"
      using None Some p by (auto simp: dialogOf_def split: option.splits)
    then show ?thesis using Some p nr assms by (simp add: parseLine_unknown)
  next
    case noMatch: None
    show ?thesis
    proof (cases "ds = []")
      case True
      then show ?thesis using noMatch nr assms by (simp add: parseLine_orphan)
    next
      case False
      have "list_all2 (producedBy st)
          (butlast ds @ [(\<lambda>d. d\<lparr>content := content d @ [LF] @ l\<rparr>) (last ds)]) src"
        using assms False by (rule list_all2_last_update) (rule producedBy_extend)
      then show ?thesis using noMatch nr False by (simp add: parseLine_continuation)
    qed
  qed
qed

lemma parseLoop_producedBy:
  "list_all2 (producedBy st) ds src \<Longrightarrow>
   list_all2 (producedBy st) (fst (parseLoop st ls (ds, console)))
     (src @ filter (recognized st) ls)"
proof (induction ls arbitrary: ds console src)
  case Nil
  then show ?case by simp
next
  case (Cons l ls)
  obtain ds' c' where step: "parseLine st l (ds, console) = (ds', c')" by fastforce
  have "list_all2 (producedBy st) ds' (src @ filter (recognized st) [l])"
    using parseLine_producedBy [OF Cons.prems, of l console] step by simp
  from Cons.IH [OF this, of c'] show ?case using step by (cases "recognized st l") simp_all
qed

lemma producedBy_span:
  "producedBy st d line \<Longrightarrow> span d = getSpanFromLine line"
  by (auto simp: producedBy_def dialogOf_def split: option.splits)

lemma parse_spans:
  "map span (parseDialogue st raw) = map getSpanFromLine (filter (recognized st) (split_nl raw))"
proof -
  have "list_all2 (\<lambda>d l. span d = getSpanFromLine l)
      (parseDialogue st raw) (filter (recognized st) (split_nl raw))"
    using parseLoop_producedBy [of st "[]" "[]" "split_nl raw" "[]"]
    by (auto simp: parseDialogue_def parseDialogueIO_def elim!: list_all2_mono dest: producedBy_span)
  then show ?thesis
    by (simp add: list_all2_conv_all_nth list_eq_iff_nth_eq)
qed

lemma in_set_dropWhile:
  "x \<in> set xs \<Longrightarrow> \<not> P x \<Longrightarrow> x \<in> set (dropWhile P xs)"
  by (induction xs) auto

lemma isAlpha_not_trimmed: "isAlpha c \<Longrightarrow> \<not> isTrimmed c"
  by (auto simp: isAlpha_def isTrimmed_def Let_def)

lemma alpha_in_trim:
  assumes "c \<in> set s" and "isAlpha c"
  shows "c \<in> set (trim s)"
proof -
  have "c \<in> set (dropWhile isTrimmed s)"
    using assms by (intro in_set_dropWhile isAlpha_not_trimmed)
  then have "c \<in> set (rev (dropWhile isTrimmed s))" by simp
  then have "c \<in> set (dropWhile isTrimmed (rev (dropWhile isTrimmed s)))"
    using assms(2) by (intro in_set_dropWhile isAlpha_not_trimmed)
  then show ?thesis by (simp add: trim_def)
qed

lemma matchAllAlpha_nonempty:
  assumes "c \<in> set s" and "isAlpha c"
  shows "matchAllAlpha s \<noteq> []"
proof -
  have "dropWhile (\<lambda>c. \<not> isAlpha c) s \<noteq> []"
    using assms by auto
  then show ?thesis by (simp add: matchAllAlpha.simps [of s] Let_def)
qed

lemma matchSpeaker_has_alpha:
  assumes "matchSpeaker line = Some p"
  shows "\<exists>c \<in> set line. isAlpha c"
proof -
  have "takeWhile isAlpha line \<noteq> []"
    using assms by (simp add: matchSpeaker_def Let_def split: if_splits)
  then obtain c where "c \<in> set (takeWhile isAlpha line)" by (cases "takeWhile isAlpha line") auto
  then show ?thesis by (meson set_takeWhileD)
qed

lemma getSpanFromLine_speaker:
  assumes "matchSpeaker line = Some p"
  shows "4 \<le> getSpanFromLine line \<and> 4 dvd getSpanFromLine line"
proof -
  obtain c where c: "c \<in> set line" "isAlpha c" using matchSpeaker_has_alpha [OF assms] by blast
  have ne: "matchAllAlpha (trim line) \<noteq> []"
    using c by (intro matchAllAlpha_nonempty [of c] alpha_in_trim)
  then have "1 \<le> length (matchAllAlpha (trim line))"
    by (cases "matchAllAlpha (trim line)") simp_all
  then show ?thesis using ne by (simp add: getSpanFromLine_def Let_def)
qed

lemma producedBy_span_positive:
  assumes "producedBy st d line"
  shows "4 \<le> span d \<and> 4 dvd span d"
proof -
  obtain p where "matchSpeaker line = Some p"
    using assms by (auto simp: producedBy_def dialogOf_def split: option.splits)
  then show ?thesis
    using getSpanFromLine_speaker producedBy_span [OF assms] by simp
qed

section \<open>Lower case\<close>

lemma of_char_toLowerChar:
  "(of_char (toLowerChar c) :: nat) =
     (if (65 \<le> (of_char c :: nat) \<and> (of_char c :: nat) \<le> 90)
         \<or> (192 \<le> (of_char c :: nat) \<and> (of_char c :: nat) \<le> 214)
         \<or> (216 \<le> (of_char c :: nat) \<and> (of_char c :: nat) \<le> 222)
      then of_char c + 32 else of_char c)"
  by (simp add: toLowerChar_def Let_def)

lemma caseVariant_alpha:
  assumes "caseVariant a b" and "isAlpha a"
  shows "isAlpha b \<and> toLowerChar a = toLowerChar b"
proof -
  define m n :: nat where "m = of_char a" and "n = of_char b"
  define up :: "nat \<Rightarrow> bool" where
    "up = (\<lambda>k. (65 \<le> k \<and> k \<le> 90) \<or> (192 \<le> k \<and> k \<le> 214) \<or> (216 \<le> k \<and> k \<le> 222))"
  have low_a: "(of_char (toLowerChar a) :: nat) = (if up m then m + 32 else m)"
    unfolding up_def m_def by (rule of_char_toLowerChar)
  have low_b: "(of_char (toLowerChar b) :: nat) = (if up n then n + 32 else n)"
    unfolding up_def n_def by (rule of_char_toLowerChar)
  have m: "(65 \<le> m \<and> m \<le> 90) \<or> (97 \<le> m \<and> m \<le> 122)"
    using assms(2) by (simp add: isAlpha_def m_def Let_def)
  have goal: "((65 \<le> n \<and> n \<le> 90) \<or> (97 \<le> n \<and> n \<le> 122))
      \<and> (if up m then m + 32 else m) = (if up n then n + 32 else n)"
  proof -
    consider (same) "a = b" | (lowered) "toLowerChar a = b" | (raised) "a = toLowerChar b"
      using assms(1) by (auto simp: caseVariant_def)
    then show ?thesis
    proof cases
      case same
      then have "m = n" by (simp add: m_def n_def)
      then show ?thesis using m by simp
    next
      case lowered
      then have n: "n = (if up m then m + 32 else m)" using low_a by (simp add: n_def)
      show ?thesis
      proof (cases "up m")
        case True
        then have "65 \<le> m \<and> m \<le> 90" using m unfolding up_def by linarith
        then have "97 \<le> n \<and> n \<le> 122" using n True by simp
        moreover from this have "\<not> up n" unfolding up_def by linarith
        ultimately show ?thesis using n True by simp
      next
        case False
        then show ?thesis using n m by simp
      qed
    next
      case raised
      then have mn: "m = (if up n then n + 32 else n)" using low_b by (simp add: m_def)
      show ?thesis
      proof (cases "up n")
        case True
        then have m32: "m = n + 32" using mn by simp
        have "65 \<le> n" using True unfolding up_def by linarith
        then have m_low: "97 \<le> m \<and> m \<le> 122" using m m32 by linarith
        then have "65 \<le> n \<and> n \<le> 90" using m32 by linarith
        moreover have "\<not> up m" using m_low unfolding up_def by linarith
        ultimately show ?thesis using m32 True by simp
      next
        case False
        then have "m = n" using mn by simp
        then show ?thesis using m by simp
      qed
    qed
  qed
  then have "(of_char (toLowerChar a) :: nat) = of_char (toLowerChar b)"
    using low_a low_b by simp
  then have "toLowerChar a = toLowerChar b" by simp
  then show ?thesis
    using goal by (simp add: isAlpha_def n_def Let_def)
qed

lemma differOnlyInCase_alpha:
  assumes "differOnlyInCase tag p" and "list_all isAlpha tag"
  shows "list_all isAlpha p \<and> toLowerCase tag = toLowerCase p"
  using assms unfolding differOnlyInCase_def toLowerCase_def
  by (induction tag p rule: list_all2_induct) (auto dest: caseVariant_alpha)

lemma colon_not_alpha: "\<not> isAlpha (CHR '':'')"
  by (simp add: isAlpha_def)

lemma matchSpeaker_tagged:
  assumes "tag \<noteq> []" and "list_all isAlpha tag"
      and "list_all (\<lambda>x. \<not> isLineTerminator x) ct"
  shows "matchSpeaker (tag @ '': '' @ ct) = Some (tag, ct)"
proof -
  have all: "\<forall>x \<in> set tag. isAlpha x" using assms(2) by (simp add: list_all_iff)
  have "takeWhile isAlpha (tag @ '': '' @ ct) = tag"
    using all by (simp add: colon_not_alpha)
  moreover have "dropWhile isAlpha (tag @ '': '' @ ct) = '': '' @ ct"
    using all by (simp add: colon_not_alpha)
  ultimately show ?thesis
    using assms(1,3) by (simp add: matchSpeaker_def)
qed

section \<open>The parser: spans, order and speakers\<close>

text \<open>
  C2: the spans of the dialogues that the parser returns are, in order, those of the
  lines that it recognizes as speaker lines of a known character, and the span of such
  a line is 4 times the number of maximal runs of letters in the whole trimmed line,
  the speaker tag included.
\<close>

theorem span_counts_whole_line:
  "map span (parseDialogue st raw) =
     map (\<lambda>line. 4 * int (alphaRunCount (trim line))) (filter (recognized st) (split_nl raw))"
  unfolding parse_spans by (simp add: getSpanFromLine_count)

text \<open>
  C9: the parser keeps the order of the text. The dialogues returned correspond one to
  one, in order, to the lines of the text that produce a dialogue, taken in the order of
  the text: the dialogue at a position has the user and the span of the line at that
  position, and its content starts with the content matched on that line.
\<close>

theorem parse_order_preserving:
  "list_all2 (producedBy st) (parseDialogue st raw) (filter (recognized st) (split_nl raw))"
  using parseLoop_producedBy [of st "[]" "[]" "split_nl raw" "[]"]
  by (simp add: parseDialogue_def parseDialogueIO_def)

text \<open>
  C10: every dialogue that the parser returns has a span that is a multiple of 4 and at
  least 4: its line starts with a speaker tag, which is a run of letters.
\<close>

theorem parsed_span_positive:
  "\<forall>d \<in> set (parseDialogue st raw). 4 \<le> span d \<and> 4 dvd span d"
proof
  fix d
  assume "d \<in> set (parseDialogue st raw)"
  moreover have "list_all2 (producedBy st) (parseDialogue st raw)
      (filter (recognized st) (split_nl raw))"
    using parseLoop_producedBy [of st "[]" "[]" "split_nl raw" "[]"]
    by (simp add: parseDialogue_def parseDialogueIO_def)
  ultimately obtain line where "producedBy st d line"
    by (auto simp: in_set_conv_nth list_all2_conv_all_nth)
  then show "4 \<le> span d \<and> 4 dvd span d" by (rule producedBy_span_positive)
qed

theorem parsed_span_positive_witness:
  "parseDialogue (initialApp [alice]) ''A: ?!'' = [\<lparr>user = alice, span = 4, content = ''?!''\<rparr>]
   \<and> list_all (\<lambda>d. 4 \<le> span d \<and> 4 dvd span d) (parseDialogue (initialApp [alice]) ''A: ?!'')"
proof -
  have "parseDialogue (initialApp [alice]) ''A: ?!'' = [\<lparr>user = alice, span = 4, content = ''?!''\<rparr>]"
    by code_simp
  then show ?thesis
    using parsed_span_positive [of "initialApp [alice]" "''A: ?!''"]
    by (simp add: list_all_iff)
qed

text \<open>
  C8: the speaker is looked up without regard to letter case. When the tag of a line
  consists of letters and differs only in letter case from the \<open>scriptPrefix\<close> of a
  character of the roster, the loop body pushes a dialogue for that line, and its user is
  the very character that it pushes for the line tagged with the \<open>scriptPrefix\<close> itself:
  the first roster entry whose lower-cased prefix is the lower-cased tag.
\<close>

theorem case_insensitive_resolution:
  assumes c: "c \<in> set (usersFields st)"
      and tag: "tag \<noteq> []" "list_all isAlpha tag"
      and var: "differOnlyInCase tag (scriptPrefix c)"
      and ct: "list_all (\<lambda>x. \<not> isLineTerminator x) ct"
  shows "\<exists>u. resolveSpeaker st (scriptPrefix c) = Some u
           \<and> parseLine st (tag @ '': '' @ ct) (ds, console)
               = (ds @ [\<lparr>user = u, span = getSpanFromLine (tag @ '': '' @ ct),
                         content = ct\<rparr>], console)
           \<and> parseLine st (scriptPrefix c @ '': '' @ ct) (ds, console)
               = (ds @ [\<lparr>user = u, span = getSpanFromLine (scriptPrefix c @ '': '' @ ct),
                         content = ct\<rparr>], console)"
proof -
  let ?p = "scriptPrefix c"
  have p: "list_all isAlpha ?p" and low: "toLowerCase tag = toLowerCase ?p"
    using differOnlyInCase_alpha [OF var tag(2)] by simp_all
  have pne: "?p \<noteq> []"
    using var tag(1) by (auto simp: differOnlyInCase_def)
  have "resolveSpeaker st ?p \<noteq> None"
    using c by (auto simp: resolveSpeaker_def find_None_iff)
  then obtain u where u: "resolveSpeaker st ?p = Some u" by auto
  have u': "resolveSpeaker st tag = Some u"
    using u low by (simp add: resolveSpeaker_def)
  have "parseLine st (tag @ '': '' @ ct) (ds, console)
      = (ds @ [\<lparr>user = u, span = getSpanFromLine (tag @ '': '' @ ct), content = ct\<rparr>], console)"
    using matchSpeaker_tagged [OF tag ct] u' by (rule parseLine_recognized)
  moreover have "parseLine st (?p @ '': '' @ ct) (ds, console)
      = (ds @ [\<lparr>user = u, span = getSpanFromLine (?p @ '': '' @ ct), content = ct\<rparr>], console)"
    using matchSpeaker_tagged [OF pne p ct] u by (rule parseLine_recognized)
  ultimately show ?thesis using u by blast
qed

theorem case_insensitive_resolution_witness:
  "alice \<in> set (usersFields (initialApp [alice]))
   \<and> ''a'' \<noteq> [] \<and> list_all isAlpha ''a''
   \<and> differOnlyInCase ''a'' (scriptPrefix alice)
   \<and> list_all (\<lambda>x. \<not> isLineTerminator x) ''Hello there''
   \<and> parseLine (initialApp [alice]) ''a: Hello there'' ([], [])
       = ([\<lparr>user = alice, span = 12, content = ''Hello there''\<rparr>], [])
   \<and> parseLine (initialApp [alice]) ''A: Hello there'' ([], [])
       = ([\<lparr>user = alice, span = 12, content = ''Hello there''\<rparr>], [])"
proof -
  let ?st = "initialApp [alice]"
  have h1: "alice \<in> set (usersFields ?st)" by (simp add: initialApp_def)
  have h2: "''a'' \<noteq> []" by simp
  have h3: "list_all isAlpha ''a''" by code_simp
  have h4: "differOnlyInCase ''a'' (scriptPrefix alice)" by code_simp
  have h5: "list_all (\<lambda>x. \<not> isLineTerminator x) ''Hello there''" by code_simp
  from case_insensitive_resolution [OF h1 h2 h3 h4 h5, of "[]" "[]"]
  obtain u where u: "resolveSpeaker ?st (scriptPrefix alice) = Some u"
    and t: "parseLine ?st (''a'' @ '': '' @ ''Hello there'') ([], [])
       = ([] @ [\<lparr>user = u, span = getSpanFromLine (''a'' @ '': '' @ ''Hello there''),
             content = ''Hello there''\<rparr>], [])"
    and e: "parseLine ?st (scriptPrefix alice @ '': '' @ ''Hello there'') ([], [])
       = ([] @ [\<lparr>user = u, span = getSpanFromLine (scriptPrefix alice @ '': '' @ ''Hello there''),
             content = ''Hello there''\<rparr>], [])"
    by blast
  have "resolveSpeaker ?st (scriptPrefix alice) = Some alice" by code_simp
  then have ua: "u = alice" using u by simp
  have s1: "getSpanFromLine (''a'' @ '': '' @ ''Hello there'') = 12" by code_simp
  have s2: "getSpanFromLine (scriptPrefix alice @ '': '' @ ''Hello there'') = 12" by code_simp
  have p: "scriptPrefix alice = ''A''" by (simp add: alice_def)
  have c1: "parseLine ?st ''a: Hello there'' ([], [])
       = ([\<lparr>user = alice, span = 12, content = ''Hello there''\<rparr>], [])"
    using t unfolding ua s1 by simp
  have c2: "parseLine ?st ''A: Hello there'' ([], [])
       = ([\<lparr>user = alice, span = 12, content = ''Hello there''\<rparr>], [])"
    using e unfolding ua s2 by (simp add: p)
  show ?thesis using h1 h2 h3 h4 h5 c1 c2 by (intro conjI)
qed

end
